theory Spec2Isabelle
  imports Complex_Main "HOL-Library.Word"
begin

unbundle bit_operations_syntax

section \<open>Python values\<close>

text \<open>
  A Python \<open>str\<close> is a sequence of Unicode code points, so a string is a list of
  code points and \<open>len\<close> is \<open>length\<close>. A \<open>str\<close> holds code points up to U+10FFFF,
  lone surrogates (U+D800 .. U+DFFF) included. ASCII literals of the source are
  written \<open>ascii ''0x''\<close>.
\<close>

type_synonym codepoint = nat
type_synonym str = "codepoint list"
type_synonym byte = "8 word"
type_synonym w32 = "32 word"

definition ascii :: "string \<Rightarrow> str" where
  "ascii s = map of_char s"

text \<open>The exceptions the builtins used by the program can raise.\<close>

datatype error = UnicodeEncodeError | ValueError | IndexError | ZeroDivisionError

definition bindE :: "error + 'a \<Rightarrow> ('a \<Rightarrow> error + 'b) \<Rightarrow> error + 'b" where
  "bindE m f = (case m of Inl e \<Rightarrow> Inl e | Inr x \<Rightarrow> f x)"

section \<open>\<open>str.encode("utf-8")\<close>\<close>

text \<open>
  The strict UTF-8 codec: one to four bytes per code point, and
  \<open>UnicodeEncodeError\<close> ("surrogates not allowed") on a surrogate code point.
\<close>

definition utf8_encode_cp :: "codepoint \<Rightarrow> error + byte list" where
  "utf8_encode_cp c =
     (if c < 0x80 then Inr [of_nat c]
      else if c < 0x800 then Inr [of_nat (0xC0 + c div 64), of_nat (0x80 + c mod 64)]
      else if 0xD800 \<le> c \<and> c \<le> 0xDFFF then Inl UnicodeEncodeError
      else if c < 0x10000 then
        Inr [of_nat (0xE0 + c div 4096), of_nat (0x80 + (c div 64) mod 64),
             of_nat (0x80 + c mod 64)]
      else
        Inr [of_nat (0xF0 + c div 262144), of_nat (0x80 + (c div 4096) mod 64),
             of_nat (0x80 + (c div 64) mod 64), of_nat (0x80 + c mod 64)])"

fun utf8_encode :: "str \<Rightarrow> error + byte list" where
  "utf8_encode [] = Inr []"
| "utf8_encode (c # cs) =
     bindE (utf8_encode_cp c) (\<lambda>bs. bindE (utf8_encode cs) (\<lambda>rest. Inr (bs @ rest)))"

section \<open>\<open>hashlib.sha256\<close> (FIPS 180-4)\<close>

text \<open>
  The round constants, each written as its upper and its lower sixteen bits.
\<close>

definition hl :: "w32 \<Rightarrow> w32 \<Rightarrow> w32" where
  "hl hi lo = push_bit 16 hi OR lo"

definition K256 :: "w32 list" where
  "K256 =
    [hl 0x428a 0x2f98, hl 0x7137 0x4491, hl 0xb5c0 0xfbcf, hl 0xe9b5 0xdba5,
     hl 0x3956 0xc25b, hl 0x59f1 0x11f1, hl 0x923f 0x82a4, hl 0xab1c 0x5ed5,
     hl 0xd807 0xaa98, hl 0x1283 0x5b01, hl 0x2431 0x85be, hl 0x550c 0x7dc3,
     hl 0x72be 0x5d74, hl 0x80de 0xb1fe, hl 0x9bdc 0x06a7, hl 0xc19b 0xf174,
     hl 0xe49b 0x69c1, hl 0xefbe 0x4786, hl 0x0fc1 0x9dc6, hl 0x240c 0xa1cc,
     hl 0x2de9 0x2c6f, hl 0x4a74 0x84aa, hl 0x5cb0 0xa9dc, hl 0x76f9 0x88da,
     hl 0x983e 0x5152, hl 0xa831 0xc66d, hl 0xb003 0x27c8, hl 0xbf59 0x7fc7,
     hl 0xc6e0 0x0bf3, hl 0xd5a7 0x9147, hl 0x06ca 0x6351, hl 0x1429 0x2967,
     hl 0x27b7 0x0a85, hl 0x2e1b 0x2138, hl 0x4d2c 0x6dfc, hl 0x5338 0x0d13,
     hl 0x650a 0x7354, hl 0x766a 0x0abb, hl 0x81c2 0xc92e, hl 0x9272 0x2c85,
     hl 0xa2bf 0xe8a1, hl 0xa81a 0x664b, hl 0xc24b 0x8b70, hl 0xc76c 0x51a3,
     hl 0xd192 0xe819, hl 0xd699 0x0624, hl 0xf40e 0x3585, hl 0x106a 0xa070,
     hl 0x19a4 0xc116, hl 0x1e37 0x6c08, hl 0x2748 0x774c, hl 0x34b0 0xbcb5,
     hl 0x391c 0x0cb3, hl 0x4ed8 0xaa4a, hl 0x5b9c 0xca4f, hl 0x682e 0x6ff3,
     hl 0x748f 0x82ee, hl 0x78a5 0x636f, hl 0x84c8 0x7814, hl 0x8cc7 0x0208,
     hl 0x90be 0xfffa, hl 0xa450 0x6ceb, hl 0xbef9 0xa3f7, hl 0xc671 0x78f2]"

type_synonym hstate = "w32 \<times> w32 \<times> w32 \<times> w32 \<times> w32 \<times> w32 \<times> w32 \<times> w32"

definition H256 :: hstate where
  "H256 = (0x6a09e667, 0xbb67ae85, 0x3c6ef372, 0xa54ff53a,
           0x510e527f, 0x9b05688c, 0x1f83d9ab, 0x5be0cd19)"

definition Ch :: "w32 \<Rightarrow> w32 \<Rightarrow> w32 \<Rightarrow> w32" where
  "Ch x y z = (x AND y) XOR (NOT x AND z)"

definition Maj :: "w32 \<Rightarrow> w32 \<Rightarrow> w32 \<Rightarrow> w32" where
  "Maj x y z = (x AND y) XOR (x AND z) XOR (y AND z)"

definition Sigma0 :: "w32 \<Rightarrow> w32" where
  "Sigma0 x = word_rotr 2 x XOR word_rotr 13 x XOR word_rotr 22 x"

definition Sigma1 :: "w32 \<Rightarrow> w32" where
  "Sigma1 x = word_rotr 6 x XOR word_rotr 11 x XOR word_rotr 25 x"

definition sigma0 :: "w32 \<Rightarrow> w32" where
  "sigma0 x = word_rotr 7 x XOR word_rotr 18 x XOR drop_bit 3 x"

definition sigma1 :: "w32 \<Rightarrow> w32" where
  "sigma1 x = word_rotr 17 x XOR word_rotr 19 x XOR drop_bit 10 x"

text \<open>Padding: the byte 0x80, zero bytes up to 56 modulo 64, the bit length in 64 bits.\<close>

definition be64 :: "nat \<Rightarrow> byte list" where
  "be64 l = (let w = (of_nat l :: 64 word) in map (\<lambda>i. ucast (drop_bit (8 * (7 - i)) w)) [0..<8])"

definition sha_pad :: "byte list \<Rightarrow> byte list" where
  "sha_pad m =
     m @ [0x80] @ replicate ((119 - length m mod 64) mod 64) 0 @ be64 (8 * length m)"

fun be32 :: "byte list \<Rightarrow> w32" where
  "be32 [] = 0"
| "be32 (b # bs) = push_bit (8 * length bs) (ucast b) OR be32 bs"

text \<open>The sixteen words of a 64-byte block, then the message schedule of 64 words.\<close>

definition block_words :: "byte list \<Rightarrow> w32 list" where
  "block_words blk = map (\<lambda>i. be32 (take 4 (drop (4 * i) blk))) [0..<16]"

fun schedule :: "nat \<Rightarrow> w32 list \<Rightarrow> w32 list" where
  "schedule 0 w = w"
| "schedule (Suc k) w =
     (let t = length w
      in schedule k
           (w @ [sigma1 (w ! (t - 2)) + w ! (t - 7) + sigma0 (w ! (t - 15)) + w ! (t - 16)]))"

definition sha_round :: "hstate \<Rightarrow> w32 \<times> w32 \<Rightarrow> hstate" where
  "sha_round st kw =
     (case st of (a, b, c, d, e, f, g, h) \<Rightarrow>
        let t1 = h + Sigma1 e + Ch e f g + fst kw + snd kw;
            t2 = Sigma0 a + Maj a b c
        in (t1 + t2, a, b, c, d + t1, e, f, g))"

definition add_state :: "hstate \<Rightarrow> hstate \<Rightarrow> hstate" where
  "add_state s t =
     (case s of (a, b, c, d, e, f, g, h) \<Rightarrow>
      case t of (a', b', c', d', e', f', g', h') \<Rightarrow>
        (a + a', b + b', c + c', d + d', e + e', f + f', g + g', h + h'))"

definition compress :: "hstate \<Rightarrow> byte list \<Rightarrow> hstate" where
  "compress st blk =
     add_state st (foldl sha_round st (zip K256 (schedule 48 (block_words blk))))"

fun sha_blocks :: "nat \<Rightarrow> hstate \<Rightarrow> byte list \<Rightarrow> hstate" where
  "sha_blocks 0 st bs = st"
| "sha_blocks (Suc n) st bs = sha_blocks n (compress st (take 64 bs)) (drop 64 bs)"

definition sha256 :: "byte list \<Rightarrow> hstate" where
  "sha256 m = (let p = sha_pad m in sha_blocks (length p div 64) H256 p)"

text \<open>\<open>hexdigest()\<close>: two lowercase hexadecimal digits per byte of the digest.\<close>

definition hexdigits :: str where
  "hexdigits = ascii ''0123456789abcdef''"

definition hex_w32 :: "w32 \<Rightarrow> str" where
  "hex_w32 w = map (\<lambda>i. hexdigits ! unat (drop_bit (4 * (7 - i)) w AND 15)) [0..<8]"

definition hexdigest :: "hstate \<Rightarrow> str" where
  "hexdigest st =
     (case st of (a, b, c, d, e, f, g, h) \<Rightarrow>
        hex_w32 a @ hex_w32 b @ hex_w32 c @ hex_w32 d @
        hex_w32 e @ hex_w32 f @ hex_w32 g @ hex_w32 h)"

section \<open>Builtins of \<open>str\<close>, \<open>int\<close> and \<open>list\<close>\<close>

text \<open>
  \<open>str.strip()\<close> removes the code points for which \<open>str.isspace\<close> holds; the
  list is that of the Unicode database and is complete.
\<close>

definition is_space :: "codepoint \<Rightarrow> bool" where
  "is_space c \<longleftrightarrow>
     (0x09 \<le> c \<and> c \<le> 0x0D) \<or> (0x1C \<le> c \<and> c \<le> 0x20) \<or> c = 0x85 \<or> c = 0xA0 \<or>
     c = 0x1680 \<or> (0x2000 \<le> c \<and> c \<le> 0x200A) \<or> c = 0x2028 \<or> c = 0x2029 \<or>
     c = 0x202F \<or> c = 0x205F \<or> c = 0x3000"

definition py_strip :: "str \<Rightarrow> str" where
  "py_strip s = rev (dropWhile is_space (rev (dropWhile is_space s)))"

text \<open>
  Case conversion is that of the ASCII letters. The case tables of the other
  code points belong to the Unicode database, not to the program: the model
  leaves those code points unchanged.
\<close>

definition lower_cp :: "codepoint \<Rightarrow> codepoint" where
  "lower_cp c = (if 0x41 \<le> c \<and> c \<le> 0x5A then c + 32 else c)"

definition upper_cp :: "codepoint \<Rightarrow> codepoint" where
  "upper_cp c = (if 0x61 \<le> c \<and> c \<le> 0x7A then c - 32 else c)"

definition py_lower :: "str \<Rightarrow> str" where
  "py_lower s = map lower_cp s"

definition py_capitalize :: "str \<Rightarrow> str" where
  "py_capitalize s = (case s of [] \<Rightarrow> [] | c # cs \<Rightarrow> upper_cp c # py_lower cs)"

definition startswith :: "str \<Rightarrow> str \<Rightarrow> bool" where
  "startswith s p \<longleftrightarrow> take (length p) s = p"

text \<open>\<open>range(n)\<close>, \<open>xs[i]\<close>, \<open>xs[i] = v\<close> and \<open>xs[lo:hi]\<close> on Python integers;
  a negative index counts from the end.\<close>

definition py_range :: "int \<Rightarrow> int list" where
  "py_range n = map int [0..<nat n]"

definition py_index :: "nat \<Rightarrow> int \<Rightarrow> nat option" where
  "py_index n i =
     (if 0 \<le> i \<and> i < int n then Some (nat i)
      else if - int n \<le> i \<and> i < 0 then Some (nat (int n + i))
      else None)"

definition py_getitem :: "'a list \<Rightarrow> int \<Rightarrow> error + 'a" where
  "py_getitem xs i =
     (case py_index (length xs) i of None \<Rightarrow> Inl IndexError | Some j \<Rightarrow> Inr (xs ! j))"

definition py_setitem :: "'a list \<Rightarrow> int \<Rightarrow> 'a \<Rightarrow> error + 'a list" where
  "py_setitem xs i v =
     (case py_index (length xs) i of None \<Rightarrow> Inl IndexError | Some j \<Rightarrow> Inr (xs[j := v]))"

definition slice_index :: "nat \<Rightarrow> int \<Rightarrow> nat" where
  "slice_index n k = (if k < 0 then nat (max 0 (int n + k)) else min (nat k) n)"

definition py_slice :: "'a list \<Rightarrow> int \<Rightarrow> int \<Rightarrow> 'a list" where
  "py_slice xs lo hi =
     (let a = slice_index (length xs) lo; b = slice_index (length xs) hi
      in take (b - a) (drop a xs))"

text \<open>
  \<open>int(s, 16)\<close> on a string of hexadecimal digits; \<open>ValueError\<close> on the empty
  string and on any other character. (Python also accepts a sign, a \<open>0x\<close>
  prefix, underscores and surrounding white space; the program only passes
  slices of a digest, and the model raises on everything else.)
\<close>

definition hex_value :: "codepoint \<Rightarrow> int option" where
  "hex_value c =
     (if 0x30 \<le> c \<and> c \<le> 0x39 then Some (int c - 0x30)
      else if 0x61 \<le> c \<and> c \<le> 0x66 then Some (int c - 0x61 + 10)
      else if 0x41 \<le> c \<and> c \<le> 0x46 then Some (int c - 0x41 + 10)
      else None)"

fun int16_from :: "int \<Rightarrow> str \<Rightarrow> error + int" where
  "int16_from acc [] = Inr acc"
| "int16_from acc (c # cs) =
     (case hex_value c of None \<Rightarrow> Inl ValueError | Some d \<Rightarrow> int16_from (16 * acc + d) cs)"

definition py_int16 :: "str \<Rightarrow> error + int" where
  "py_int16 s = (if s = [] then Inl ValueError else int16_from 0 s)"

text \<open>\<open>bin(n)\<close> and \<open>str.zfill(width)\<close>.\<close>

function bin_digits :: "int \<Rightarrow> str" where
  "bin_digits n =
     (if n < 2 then [if n = 1 then 0x31 else 0x30]
      else bin_digits (n div 2) @ [if n mod 2 = 1 then 0x31 else 0x30])"
  by pat_completeness auto
termination
  by (relation "measure nat") auto

definition py_bin :: "int \<Rightarrow> str" where
  "py_bin n = (if n < 0 then ascii ''-0b'' @ bin_digits (- n) else ascii ''0b'' @ bin_digits n)"

definition zfill :: "str \<Rightarrow> nat \<Rightarrow> str" where
  "zfill s width =
     (if width \<le> length s then s
      else case s of
             c # cs \<Rightarrow>
               if c = 0x2B \<or> c = 0x2D then c # replicate (width - length s) 0x30 @ cs
               else replicate (width - length s) 0x30 @ s
           | [] \<Rightarrow> replicate width 0x30)"

text \<open>A \<open>for\<close> loop over a list whose body may raise: the first exception ends the loop.\<close>

fun for_loop :: "('a \<Rightarrow> 's \<Rightarrow> error + 's) \<Rightarrow> 'a list \<Rightarrow> 's \<Rightarrow> error + 's" where
  "for_loop body [] s = Inr s"
| "for_loop body (x # xs) s = bindE (body x s) (for_loop body xs)"

section \<open>The program\<close>

definition VOWELS :: str where
  "VOWELS = ascii ''aeiou''"

definition CONSONANTS :: str where
  "CONSONANTS = ascii ''bcdfghjklmnpqrstvwxyz''"

definition hex_normalize :: "str \<Rightarrow> str" where
  "hex_normalize addr =
     (let a = py_strip addr;
          a = (if startswith a (ascii ''0x'') \<or> startswith a (ascii ''0X'') then drop 2 a else a)
      in py_lower a)"

definition sha256_hex :: "str \<Rightarrow> error + str" where
  "sha256_hex s = bindE (utf8_encode s) (\<lambda>bs. Inr (hexdigest (sha256 bs)))"

text \<open>The body of the loop of \<open>make_pronounceable_alias\<close>: the syllable of byte \<open>i\<close>.\<close>

definition syllable :: "str \<Rightarrow> int \<Rightarrow> error + str" where
  "syllable h i =
     bindE (py_int16 (py_slice h (i * 2) ((i * 2) + 2))) (\<lambda>byte.
     bindE (py_getitem CONSONANTS (byte mod int (length CONSONANTS))) (\<lambda>c.
     bindE (py_getitem VOWELS (drop_bit 3 byte mod int (length VOWELS))) (\<lambda>v.
     bindE (py_getitem CONSONANTS (drop_bit 5 byte mod int (length CONSONANTS))) (\<lambda>c2.
     Inr [c, v, c2]))))"

definition make_pronounceable_alias :: "str \<Rightarrow> str \<Rightarrow> error + str" where
  "make_pronounceable_alias hexstr seed =
     bindE (sha256_hex (hexstr @ ascii ''|'' @ seed)) (\<lambda>h.
     bindE (for_loop (\<lambda>i out. bindE (syllable h i) (\<lambda>syl. Inr (out @ [syl])))
              (py_range 5) []) (\<lambda>out.
     Inr (py_capitalize (take 12 (concat out)))))"

text \<open>
  The identicon. A cell of the grid is a one-character string, the block
  U+2588 or a space; the state of the two loops is the grid and \<open>bit_idx\<close>.
  The rows are distinct list objects, so the two assignments into \<open>grid[r]\<close>
  change row \<open>r\<close> only; \<open>r\<close> comes from \<open>range(size)\<close> and is not negative.
\<close>

definition BLOCK :: str where
  "BLOCK = [0x2588]"

definition SPACE :: str where
  "SPACE = ascii '' ''"

definition identicon_cell ::
  "str \<Rightarrow> int \<Rightarrow> int \<Rightarrow> int \<Rightarrow> str list list \<times> int \<Rightarrow> error + str list list \<times> int" where
  "identicon_cell bits sz r c st =
     (case st of (grid, bit_idx) \<Rightarrow>
        let bit_idx = (if bit_idx \<ge> int (length bits) then 0 else bit_idx)
        in bindE (py_getitem bits bit_idx) (\<lambda>b.
           bindE (py_getitem grid r) (\<lambda>row.
           bindE (py_setitem row c (if [b] = ascii ''1'' then BLOCK else SPACE)) (\<lambda>row.
           bindE (py_getitem row c) (\<lambda>v.
           bindE (py_setitem row (sz - 1 - c) v) (\<lambda>row.
           Inr (grid[nat r := row], bit_idx + 1)))))))"

definition identicon_row ::
  "str \<Rightarrow> int \<Rightarrow> int \<Rightarrow> int \<Rightarrow> str list list \<times> int \<Rightarrow> error + str list list \<times> int" where
  "identicon_row bits sz half r st = for_loop (identicon_cell bits sz r) (py_range half) st"

definition ascii_identicon :: "str \<Rightarrow> int \<Rightarrow> error + str list" where
  "ascii_identicon hexstr sz =
     bindE (sha256_hex hexstr) (\<lambda>h.
     bindE (py_int16 h) (\<lambda>n.
       let bits = zfill (drop 2 (py_bin n)) 256;
           grid = replicate (nat sz) (replicate (nat sz) SPACE);
           half = (sz + 1) div 2
       in bindE (for_loop (identicon_row bits sz half) (py_range sz) (grid, 0)) (\<lambda>st.
          Inr (map concat (fst st)))))"

text \<open>
  The entropy score. \<open>Counter(s)\<close> is the list of the distinct characters with
  their counts, in the order of first occurrence (the order a \<open>dict\<close> iterates
  in). Python floats are modelled by real numbers: rounding errors of the
  float operations are not part of the model. \<open>v / total\<close> raises on a zero
  divisor and \<open>math.log\<close> on a non-positive argument.
\<close>

fun counter_add :: "'a \<Rightarrow> ('a \<times> nat) list \<Rightarrow> ('a \<times> nat) list" where
  "counter_add x [] = [(x, 1)]"
| "counter_add x ((k, n) # kvs) =
     (if k = x then (k, n + 1) # kvs else (k, n) # counter_add x kvs)"

definition Counter :: "'a list \<Rightarrow> ('a \<times> nat) list" where
  "Counter s = foldl (\<lambda>cnt x. counter_add x cnt) [] s"

definition py_truediv :: "real \<Rightarrow> real \<Rightarrow> error + real" where
  "py_truediv a b = (if b = 0 then Inl ZeroDivisionError else Inr (a / b))"

definition math_log :: "real \<Rightarrow> real \<Rightarrow> error + real" where
  "math_log x b = (if x \<le> 0 then Inl ValueError else Inr (log b x))"

text \<open>\<open>round(x, 1)\<close>: to one decimal place, a tie to the even digit.\<close>

definition round_half_even :: "real \<Rightarrow> int" where
  "round_half_even y =
     (let f = \<lfloor>y\<rfloor>; d = y - of_int f
      in if d < 1 / 2 then f else if d > 1 / 2 then f + 1 else if even f then f else f + 1)"

definition py_round1 :: "real \<Rightarrow> real" where
  "py_round1 x = of_int (round_half_even (x * 10)) / 10"

definition entropy_step :: "nat \<Rightarrow> nat \<Rightarrow> real \<Rightarrow> error + real" where
  "entropy_step total_count v ent =
     bindE (py_truediv (real v) (real total_count)) (\<lambda>p.
     bindE (if p > 0 then math_log p 2 else Inr 0) (\<lambda>l.
     Inr (ent - p * l)))"

definition entropy_score_from_hex :: "str \<Rightarrow> error + real" where
  "entropy_score_from_hex hexstr =
     (let s = py_lower hexstr;
          cnt = Counter s;
          total_count = (if cnt \<noteq> [] then sum_list (map snd cnt) else 1)
      in bindE (for_loop (entropy_step total_count) (map snd cnt) 0) (\<lambda>ent.
         let normalized = min 100 ((ent / 4) * 100)
         in Inr (py_round1 normalized)))"

text \<open>
  \<open>main\<close>. The command line gives the optional positional address, the seed
  (default empty) and the output format; standard input is read only when the
  address is missing or empty. Lines 106 to 126 build the report.
\<close>

text \<open>The field \<open>alias\<close> of the report is \<open>alias_name\<close> here.\<close>

record report =
  input :: str
  normalized :: str
  fingerprint :: str
  short_id :: str
  alias_name :: str
  entropy_score :: real
  identicon_lines :: "str list"

definition build_report :: "str \<Rightarrow> str \<Rightarrow> error + report" where
  "build_report addr seed_arg =
     (let hexaddr = hex_normalize addr
      in bindE (sha256_hex hexaddr) (\<lambda>fp.
         bindE (make_pronounceable_alias hexaddr seed_arg) (\<lambda>al.
         bindE (ascii_identicon hexaddr 7) (\<lambda>identicon.
         bindE (entropy_score_from_hex hexaddr) (\<lambda>entropy.
         Inr \<lparr>input = addr, normalized = hexaddr, fingerprint = fp, short_id = take 8 fp,
              alias_name = al, entropy_score = entropy, identicon_lines = identicon\<rparr>)))))"

datatype fmt = Text | Json

record args =
  address :: "str option"
  seed :: str
  format :: fmt





section \<open>Encodable strings\<close>

text \<open>
  The strings \<open>str.encode("utf-8")\<close> accepts: those without a surrogate code point.
\<close>

definition is_surrogate :: "codepoint \<Rightarrow> bool" where
  "is_surrogate c \<longleftrightarrow> 0xD800 \<le> c \<and> c \<le> 0xDFFF"

definition encodable :: "str \<Rightarrow> bool" where
  "encodable s = list_all (\<lambda>c. \<not> is_surrogate c) s"

section \<open>The alias algorithm as the specification words it\<close>

text \<open>
  The reference definition of the alias: for \<open>i\<close> in 0..4 the digest characters
  \<open>[2i, 2i+2)\<close> are parsed as an 8-bit integer \<open>byte\<close>; the syllable is
  \<open>consonants[byte mod 21]\<close>, \<open>vowels[(byte >> 3) mod 5]\<close>,
  \<open>consonants[(byte >> 5) mod 21]\<close>; the five syllables are concatenated, cut to
  the first 12 characters, and only the first character is upper-cased.
\<close>

definition ref_digit :: "codepoint \<Rightarrow> nat" where
  "ref_digit c = (if c < 0x3A then c - 0x30 else c - 0x57)"

definition ref_byte :: "str \<Rightarrow> nat \<Rightarrow> nat" where
  "ref_byte d i = 16 * ref_digit (d ! (2 * i)) + ref_digit (d ! (2 * i + 1))"

definition ref_syllable :: "nat \<Rightarrow> str" where
  "ref_syllable byte =
     [CONSONANTS ! (byte mod 21), VOWELS ! (drop_bit 3 byte mod 5),
      CONSONANTS ! (drop_bit 5 byte mod 21)]"

definition ref_alias_of_digest :: "str \<Rightarrow> str" where
  "ref_alias_of_digest d =
     (case take 12 (concat (map (\<lambda>i. ref_syllable (ref_byte d i)) [0..<5])) of
        [] \<Rightarrow> []
      | c # cs \<Rightarrow> upper_cp c # cs)"

definition alias_reference :: "str \<Rightarrow> str \<Rightarrow> error + str" where
  "alias_reference hexstr seed_arg =
     (case sha256_hex (hexstr @ ascii ''|'' @ seed_arg) of
        Inl e \<Rightarrow> Inl e
      | Inr d \<Rightarrow> Inr (ref_alias_of_digest d))"

section \<open>Predicates on grids\<close>

text \<open>
  A row is symmetric when cell \<open>j\<close> equals cell \<open>N - 1 - j\<close>; a grid is
  well-formed when it has \<open>N\<close> rows of \<open>N\<close> one-character cells.
\<close>

definition row_sym :: "nat \<Rightarrow> 'a list \<Rightarrow> bool" where
  "row_sym N row \<longleftrightarrow> (\<forall>j < N. row ! j = row ! (N - 1 - j))"

definition grid_ok :: "nat \<Rightarrow> str list list \<Rightarrow> bool" where
  "grid_ok N grid \<longleftrightarrow>
     length grid = N \<and> (\<forall>row \<in> set grid. length row = N \<and> (\<forall>cell \<in> set row. length cell = 1))"

section \<open>Basic facts\<close>

lemma bindE_simps [simp]: "bindE (Inr x) f = f x" "bindE (Inl e) f = Inl e"
  by (simp_all add: bindE_def)

lemma ascii_simps [simp]: "ascii [] = []" "ascii (c # cs) = of_char c # ascii cs"
  by (simp_all add: ascii_def)

lemma is_space_lower_cp [simp]: "is_space (lower_cp c) = is_space c"
  by (auto simp: is_space_def lower_cp_def)

lemma lower_cp_idem [simp]: "lower_cp (lower_cp c) = lower_cp c"
  by (simp add: lower_cp_def)

lemma py_lower_idem [simp]: "py_lower (py_lower s) = py_lower s"
  by (simp add: py_lower_def)

lemma py_strip_Nil [simp]: "py_strip [] = []"
  by (simp add: py_strip_def)

lemma py_strip_id:
  assumes "s \<noteq> []" "\<not> is_space (hd s)" "\<not> is_space (last s)"
  shows "py_strip s = s"
proof -
  from assms have 1: "dropWhile is_space s = s" by (cases s) auto
  from assms have "rev s \<noteq> []" "\<not> is_space (hd (rev s))" by (simp_all add: hd_rev)
  then have 2: "dropWhile is_space (rev s) = rev s" by (cases "rev s") auto
  show ?thesis by (simp add: py_strip_def 1 2)
qed







lemma hexdigits_fixed:
  assumes "set y \<subseteq> set hexdigits"
  shows "hex_normalize y = y"
proof -
  have h: "c \<in> set hexdigits \<Longrightarrow> \<not> is_space c \<and> lower_cp c = c \<and> c \<noteq> 0x78 \<and> c \<noteq> 0x58" for c
    by (auto simp: hexdigits_def is_space_def lower_cp_def)
  have s: "py_strip y = y"
  proof (cases "y = []")
    case True
    then show ?thesis by simp
  next
    case False
    then have "hd y \<in> set y" "last y \<in> set y" by simp_all
    with assms h have "\<not> is_space (hd y)" "\<not> is_space (last y)" by blast+
    with False show ?thesis by (rule py_strip_id)
  qed
  have "\<not> startswith y [0x30, c]" if "c = 0x78 \<or> c = 0x58" for c
  proof
    assume "startswith y [0x30, c]"
    then have "take (length [0x30, c]) y = [0x30, c]" by (simp only: startswith_def)
    moreover have "c \<in> set [0x30, c]" by simp
    ultimately have "c \<in> set (take (length [0x30, c]) y)" by simp
    then have "c \<in> set y" by (rule in_set_takeD)
    with assms h that show False by blast
  qed
  then have p: "\<not> startswith y (ascii ''0x'')" "\<not> startswith y (ascii ''0X'')" by simp_all
  have "py_lower y = y" unfolding py_lower_def using assms h by (intro map_idI) blast
  with s p show ?thesis by (simp add: hex_normalize_def)
qed

subsection \<open>The entropy score\<close>

lemma counter_add_pos: "\<forall>v \<in> snd ` set cnt. 0 < v \<Longrightarrow> \<forall>v \<in> snd ` set (counter_add x cnt). 0 < v"
  by (induction x cnt rule: counter_add.induct) auto

lemma counter_add_ne [simp]: "counter_add x cnt \<noteq> []"
  by (induction x cnt rule: counter_add.induct) auto

lemma foldl_counter_pos:
  "\<forall>v \<in> snd ` set cnt. 0 < v \<Longrightarrow> \<forall>v \<in> snd ` set (foldl (\<lambda>cnt x. counter_add x cnt) cnt s). 0 < v"
proof (induction s arbitrary: cnt)
  case Nil
  then show ?case by simp
next
  case (Cons x s)
  show ?case using Cons.IH [OF counter_add_pos [OF Cons.prems]] by simp
qed

lemma Counter_pos: "v \<in> set (map snd (Counter s)) \<Longrightarrow> 0 < v"
  using foldl_counter_pos [of "[]" s] by (auto simp: Counter_def)

lemma member_le_sum_list: "(v::nat) \<in> set vs \<Longrightarrow> v \<le> sum_list vs"
  by (induction vs) auto

lemma entropy_step_ok:
  assumes "0 < v" "v \<le> t"
  shows "\<exists>e. entropy_step t v acc = Inr e \<and> acc \<le> e"
proof -
  let ?p = "real v / real t"
  from assms have t: "real t \<noteq> 0" by simp
  from assms have p: "0 < ?p" "?p \<le> 1" by simp_all
  then have "log 2 ?p \<le> 0" by simp
  with p have "?p * log 2 ?p \<le> 0" by (simp only: mult_le_0_iff) simp
  then have "acc \<le> acc - ?p * log 2 ?p" by linarith
  moreover have "entropy_step t v acc = Inr (acc - ?p * log 2 ?p)"
    using t p(1) by (simp add: entropy_step_def py_truediv_def math_log_def)
  ultimately show ?thesis by blast
qed

lemma entropy_loop_ok:
  "\<forall>v \<in> set vs. 0 < v \<and> v \<le> t \<Longrightarrow> \<exists>e. for_loop (entropy_step t) vs acc = Inr e \<and> acc \<le> e"
proof (induction vs arbitrary: acc)
  case Nil
  then show ?case by simp
next
  case (Cons v vs)
  then have "0 < v" "v \<le> t" by simp_all
  from entropy_step_ok [OF this] obtain e1 where e1: "entropy_step t v acc = Inr e1" "acc \<le> e1"
    by blast
  from Cons.prems have "\<forall>v \<in> set vs. 0 < v \<and> v \<le> t" by simp
  from Cons.IH [OF this, of e1] obtain e where "for_loop (entropy_step t) vs e1 = Inr e" "e1 \<le> e"
    by blast
  with e1 show ?case by auto
qed

lemma round_half_even_bounds: "\<lfloor>y\<rfloor> \<le> round_half_even y \<and> round_half_even y \<le> \<lceil>y\<rceil>"
proof -
  have "\<lfloor>y\<rfloor> + 1 \<le> \<lceil>y\<rceil>" if "y - of_int \<lfloor>y\<rfloor> \<ge> 1 / 2"
  proof -
    from that have "of_int \<lfloor>y\<rfloor> < y" by linarith
    then show ?thesis by linarith
  qed
  moreover have "\<lfloor>y\<rfloor> \<le> \<lceil>y\<rceil>" by linarith
  ultimately show ?thesis
    by (auto simp: round_half_even_def Let_def)
qed

lemma py_round1_bounds:
  assumes "0 \<le> x" "x \<le> 100"
  shows "0 \<le> py_round1 x \<and> py_round1 x \<le> 100"
proof -
  have "(0::int) \<le> \<lfloor>x * 10\<rfloor>" using assms by simp
  with round_half_even_bounds [of "x * 10"] have lo: "0 \<le> round_half_even (x * 10)" by linarith
  have "\<lceil>x * 10\<rceil> \<le> 1000" using assms by (simp add: ceiling_le_iff)
  with round_half_even_bounds [of "x * 10"] have hi: "round_half_even (x * 10) \<le> 1000" by linarith
  from lo hi show ?thesis by (simp add: py_round1_def)
qed

lemma py_round1_0 [simp]: "py_round1 0 = 0"
  by (simp add: py_round1_def round_half_even_def)

lemma entropy_total: "\<exists>x. entropy_score_from_hex s = Inr x \<and> 0 \<le> x \<and> x \<le> 100"
proof -
  define cnt where "cnt = Counter (py_lower s)"
  define t where "t = (if cnt \<noteq> [] then sum_list (map snd cnt) else 1)"
  have "\<forall>v \<in> set (map snd cnt). 0 < v \<and> v \<le> t"
  proof
    fix v assume v: "v \<in> set (map snd cnt)"
    then have "cnt \<noteq> []" by auto
    with v show "0 < v \<and> v \<le> t"
      using Counter_pos [of v "py_lower s"] member_le_sum_list [of v "map snd cnt"]
      by (simp add: t_def cnt_def)
  qed
  from entropy_loop_ok [OF this, of 0] obtain e
    where e: "for_loop (entropy_step t) (map snd cnt) 0 = Inr e" "0 \<le> e" by blast
  let ?n = "min 100 ((e / 4) * 100)"
  have "0 \<le> ?n" "?n \<le> 100" using e(2) by simp_all
  from py_round1_bounds [OF this]
  have r: "0 \<le> py_round1 ?n \<and> py_round1 ?n \<le> 100" .
  have "entropy_score_from_hex s = Inr (py_round1 ?n)"
    unfolding entropy_score_from_hex_def Let_def cnt_def [symmetric] t_def [symmetric] e(1)
    by simp
  with r show ?thesis by blast
qed





subsection \<open>Digests and the alias\<close>

lemma utf8_encode_cp_cases:
  "utf8_encode_cp c = Inl UnicodeEncodeError \<and> is_surrogate c \<or>
   (\<exists>bs. utf8_encode_cp c = Inr bs) \<and> \<not> is_surrogate c"
  by (auto simp: utf8_encode_cp_def is_surrogate_def)

lemma utf8_encode_cases:
  "utf8_encode s = Inl UnicodeEncodeError \<and> \<not> encodable s \<or>
   (\<exists>bs. utf8_encode s = Inr bs) \<and> encodable s"
proof (induction s)
  case Nil
  then show ?case by (simp add: encodable_def)
next
  case (Cons c cs)
  from utf8_encode_cp_cases [of c] Cons show ?case
    by (auto simp: encodable_def)
qed

lemma unat_and_15: "unat ((w :: w32) AND 15) < 16"
proof -
  have "unat (w AND 15) \<le> unat (15 :: w32)"
    by (rule word_and_le1 [THEN word_le_nat_alt [THEN iffD1]])
  then show ?thesis by simp
qed

lemma length_hexdigits [simp]: "length hexdigits = 16"
  by (simp add: hexdigits_def)

lemma hex_w32_shape: "length (hex_w32 w) = 8 \<and> set (hex_w32 w) \<subseteq> set hexdigits"
  using unat_and_15 by (auto simp: hex_w32_def)

lemma hexdigest_shape: "length (hexdigest st) = 64 \<and> set (hexdigest st) \<subseteq> set hexdigits"
proof -
  obtain a b c d e f g h where st: "st = (a, b, c, d, e, f, g, h)" by (metis surj_pair)
  show ?thesis
    using hex_w32_shape [of a] hex_w32_shape [of b] hex_w32_shape [of c] hex_w32_shape [of d]
      hex_w32_shape [of e] hex_w32_shape [of f] hex_w32_shape [of g] hex_w32_shape [of h]
    by (simp add: st hexdigest_def)
qed

lemma sha256_hex_cases:
  "sha256_hex s = Inl UnicodeEncodeError \<and> \<not> encodable s \<or>
   (\<exists>d. sha256_hex s = Inr d \<and> length d = 64 \<and> set d \<subseteq> set hexdigits) \<and> encodable s"
proof (cases "encodable s")
  case True
  with utf8_encode_cases [of s] obtain bs where "utf8_encode s = Inr bs" by blast
  then have "sha256_hex s = Inr (hexdigest (sha256 bs))" by (simp add: sha256_hex_def)
  with True hexdigest_shape [of "sha256 bs"] show ?thesis by blast
next
  case False
  with utf8_encode_cases [of s] have "utf8_encode s = Inl UnicodeEncodeError" by blast
  with False show ?thesis by (simp add: sha256_hex_def)
qed

lemma sha256_hex_shape:
  "sha256_hex s = Inr d \<Longrightarrow> length d = 64 \<and> set d \<subseteq> set hexdigits"
  using sha256_hex_cases [of s] by auto

lemma hex_value_hexdigits:
  "c \<in> set hexdigits \<Longrightarrow> hex_value c = Some (int (ref_digit c)) \<and> ref_digit c < 16"
  by (auto simp: hexdigits_def hex_value_def ref_digit_def)

lemma py_int16_pair:
  assumes "a \<in> set hexdigits" "b \<in> set hexdigits"
  shows "py_int16 [a, b] = Inr (int (16 * ref_digit a + ref_digit b))"
  using hex_value_hexdigits [OF assms(1)] hex_value_hexdigits [OF assms(2)]
  by (simp add: py_int16_def)

lemma py_slice_pair:
  assumes "2 * i + 2 \<le> length d"
  shows "py_slice d (int i * 2) ((int i * 2) + 2) = [d ! (2 * i), d ! (2 * i + 1)]"
proof -
  have a: "slice_index (length d) (int i * 2) = 2 * i"
    using assms by (simp add: slice_index_def nat_mult_distrib)
  have "nat (int i * 2 + 2) = 2 * i + 2" by (simp add: nat_add_distrib nat_mult_distrib)
  then have b: "slice_index (length d) (int i * 2 + 2) = 2 * i + 2"
    using assms by (simp add: slice_index_def)
  have "take 2 (drop (2 * i) d) = [d ! (2 * i), d ! (2 * i + 1)]"
  proof -
    have l: "length (drop (2 * i) d) \<ge> 2" using assms by simp
    then obtain x y zs where e: "drop (2 * i) d = x # y # zs"
      by (metis Suc_le_length_iff numeral_2_eq_2)
    have "x = drop (2 * i) d ! 0" "y = drop (2 * i) d ! 1" by (simp_all add: e)
    then have "x = d ! (2 * i)" "y = d ! (2 * i + 1)" using assms by simp_all
    with e show ?thesis by simp
  qed
  then show ?thesis by (simp add: py_slice_def a b Let_def)
qed

lemma py_getitem_nat:
  "k < length xs \<Longrightarrow> py_getitem xs (int k) = Inr (xs ! k)"
  by (simp add: py_getitem_def py_index_def)

lemma length_alphabets [simp]: "length CONSONANTS = 21" "length VOWELS = 5"
  by (simp_all add: CONSONANTS_def VOWELS_def)

lemma drop_bit_int_nat: "drop_bit n (int k) = int (drop_bit n k)"
  by (simp add: drop_bit_of_nat)

lemma syllable_ref:
  assumes "length d = 64" "set d \<subseteq> set hexdigits" "i < 5"
  shows "syllable d (int i) = Inr (ref_syllable (ref_byte d i))"
proof -
  from assms have le: "2 * i + 2 \<le> length d" by simp
  then have "d ! (2 * i) \<in> set d" "d ! (2 * i + 1) \<in> set d" by simp_all
  with assms(2) have h: "d ! (2 * i) \<in> set hexdigits" "d ! (2 * i + 1) \<in> set hexdigits"
    by blast+
  have b: "py_int16 (py_slice d (int i * 2) ((int i * 2) + 2)) = Inr (int (ref_byte d i))"
    unfolding py_slice_pair [OF le] ref_byte_def by (rule py_int16_pair [OF h])
  let ?B = "ref_byte d i"
  have m: "int ?B mod int (length CONSONANTS) = int (?B mod 21)"
    "drop_bit 3 (int ?B) mod int (length VOWELS) = int (drop_bit 3 ?B mod 5)"
    "drop_bit 5 (int ?B) mod int (length CONSONANTS) = int (drop_bit 5 ?B mod 21)"
    by (simp_all add: drop_bit_int_nat zmod_int)
  have g1: "py_getitem CONSONANTS (int ?B mod int (length CONSONANTS)) = Inr (CONSONANTS ! (?B mod 21))"
    unfolding m by (rule py_getitem_nat) simp
  have g2: "py_getitem VOWELS (drop_bit 3 (int ?B) mod int (length VOWELS)) = Inr (VOWELS ! (drop_bit 3 ?B mod 5))"
    unfolding m by (rule py_getitem_nat) simp
  have g3: "py_getitem CONSONANTS (drop_bit 5 (int ?B) mod int (length CONSONANTS)) = Inr (CONSONANTS ! (drop_bit 5 ?B mod 21))"
    unfolding m by (rule py_getitem_nat) simp
  show ?thesis
    unfolding syllable_def b bindE_simps g1 g2 g3 ref_syllable_def ..
qed

lemma for_loop_append:
  assumes "\<forall>x \<in> set xs. f x = Inr (g x)"
  shows "for_loop (\<lambda>i out. bindE (f i) (\<lambda>syl. Inr (out @ [syl]))) xs acc = Inr (acc @ map g xs)"
  using assms by (induction xs arbitrary: acc) simp_all

lemma alias_loop:
  assumes "length d = 64" "set d \<subseteq> set hexdigits"
  shows "for_loop (\<lambda>i out. bindE (syllable d i) (\<lambda>syl. Inr (out @ [syl]))) (py_range 5) [] =
         Inr (map (\<lambda>i. ref_syllable (ref_byte d i)) [0..<5])"
proof -
  have "\<forall>x \<in> set (py_range 5). syllable d x = Inr (ref_syllable (ref_byte d (nat x)))"
  proof
    fix x assume "x \<in> set (py_range 5)"
    then obtain i where i: "x = int i" "i < 5" by (auto simp: py_range_def)
    with syllable_ref [OF assms, of i] show "syllable d x = Inr (ref_syllable (ref_byte d (nat x)))"
      by simp
  qed
  from for_loop_append [OF this, of "[]"] show ?thesis
    by (simp add: py_range_def comp_def)
qed

lemma alphabet_letters:
  "c \<in> set CONSONANTS \<union> set VOWELS \<Longrightarrow> 0x61 \<le> c \<and> c \<le> 0x7A"
  by (auto simp: CONSONANTS_def VOWELS_def)

lemma ref_syllable_shape:
  "length (ref_syllable b) = 3 \<and> set (ref_syllable b) \<subseteq> set CONSONANTS \<union> set VOWELS"
  by (simp add: ref_syllable_def)

lemma ref_syllables_shape:
  "length (concat (map (\<lambda>i. ref_syllable (ref_byte d i)) [0..<5])) = 15 \<and>
   set (concat (map (\<lambda>i. ref_syllable (ref_byte d i)) [0..<5])) \<subseteq> set CONSONANTS \<union> set VOWELS"
proof -
  have u: "[0..<5] = [0, 1, 2, 3, 4]" by (simp add: upt_rec)
  show ?thesis unfolding u using ref_syllable_shape by simp
qed

lemma py_lower_letters:
  "set cs \<subseteq> set CONSONANTS \<union> set VOWELS \<Longrightarrow> py_lower cs = cs"
  unfolding py_lower_def
proof (rule map_idI)
  fix c assume "set cs \<subseteq> set CONSONANTS \<union> set VOWELS" "c \<in> set cs"
  then have "c \<in> set CONSONANTS \<union> set VOWELS" by blast
  from alphabet_letters [OF this] show "lower_cp c = c" by (simp add: lower_cp_def)
qed

lemma alias_of_digest:
  assumes "length d = 64" "set d \<subseteq> set hexdigits"
  shows "bindE (for_loop (\<lambda>i out. bindE (syllable d i) (\<lambda>syl. Inr (out @ [syl]))) (py_range 5) [])
           (\<lambda>out. Inr (py_capitalize (take 12 (concat out)))) = Inr (ref_alias_of_digest d)"
proof -
  define a where "a = take 12 (concat (map (\<lambda>i. ref_syllable (ref_byte d i)) [0..<5]))"
  have "set a \<subseteq> set CONSONANTS \<union> set VOWELS"
    unfolding a_def
    using ref_syllables_shape [of d]
      set_take_subset [of 12 "concat (map (\<lambda>i. ref_syllable (ref_byte d i)) [0..<5])"]
    by blast
  then have "py_capitalize a = (case a of [] \<Rightarrow> [] | c # cs \<Rightarrow> upper_cp c # cs)"
    by (cases a) (simp_all add: py_capitalize_def py_lower_letters)
  then show ?thesis
    unfolding alias_loop [OF assms] bindE_simps ref_alias_of_digest_def a_def by simp
qed

lemma alias_refines: "make_pronounceable_alias hexstr sd = alias_reference hexstr sd"
proof (cases "sha256_hex (hexstr @ ascii ''|'' @ sd)")
  case (Inl e)
  then show ?thesis by (simp add: make_pronounceable_alias_def alias_reference_def)
next
  case (Inr d)
  from sha256_hex_shape [OF this] have "length d = 64" "set d \<subseteq> set hexdigits" by simp_all
  from alias_of_digest [OF this] Inr show ?thesis
    by (simp add: make_pronounceable_alias_def alias_reference_def)
qed

lemma ref_alias_shape:
  "length (ref_alias_of_digest d) = 12 \<and>
   (\<exists>c cs. ref_alias_of_digest d = c # cs \<and> 0x41 \<le> c \<and> c \<le> 0x5A \<and>
      (\<forall>x \<in> set cs. x \<in> set CONSONANTS \<union> set VOWELS \<and> 0x61 \<le> x \<and> x \<le> 0x7A))"
proof -
  let ?xs = "concat (map (\<lambda>i. ref_syllable (ref_byte d i)) [0..<5])"
  have l: "length (take 12 ?xs) = 12" using ref_syllables_shape [of d] by simp
  have s: "set (take 12 ?xs) \<subseteq> set CONSONANTS \<union> set VOWELS"
    using ref_syllables_shape [of d] set_take_subset [of 12 ?xs] by blast
  from l obtain c cs where e: "take 12 ?xs = c # cs" by (cases "take 12 ?xs") auto
  with s have c: "c \<in> set CONSONANTS \<union> set VOWELS" and cs: "set cs \<subseteq> set CONSONANTS \<union> set VOWELS"
    by auto
  from alphabet_letters [OF c] have u: "0x41 \<le> upper_cp c \<and> upper_cp c \<le> 0x5A"
    by (simp add: upper_cp_def, arith)
  have r: "ref_alias_of_digest d = upper_cp c # cs" by (simp add: ref_alias_of_digest_def e)
  from l e have "length (upper_cp c # cs) = 12" by simp
  with r u cs alphabet_letters show ?thesis by auto
qed


subsection \<open>Loops and the identicon\<close>

lemma for_loop_upt:
  assumes "I k s" "k \<le> m"
    and step: "\<And>j t. k \<le> j \<Longrightarrow> j < m \<Longrightarrow> I j t \<Longrightarrow> \<exists>t'. body (int j) t = Inr t' \<and> I (Suc j) t'"
  shows "\<exists>s'. for_loop body (map int [k..<m]) s = Inr s' \<and> I m s'"
  using assms
proof (induction "m - k" arbitrary: k s)
  case 0
  then show ?case by simp
next
  case (Suc d)
  then have km: "k < m" by simp
  from Suc.prems(3) [of k s] km Suc.prems(1) obtain t where t: "body (int k) s = Inr t" "I (Suc k) t"
    by auto
  have "\<exists>s'. for_loop body (map int [Suc k..<m]) t = Inr s' \<and> I m s'"
  proof (rule Suc.hyps(1))
    show "d = m - Suc k" using Suc.hyps(2) by simp
    show "I (Suc k) t" by (rule t(2))
    show "Suc k \<le> m" using km by simp
    show "\<And>j t. Suc k \<le> j \<Longrightarrow> j < m \<Longrightarrow> I j t \<Longrightarrow> \<exists>t'. body (int j) t = Inr t' \<and> I (Suc j) t'"
      using Suc.prems(3) by simp
  qed
  then show ?case using km t(1) by (simp add: upt_conv_Cons)
qed

lemma for_range_rule:
  assumes "I 0 s"
    and "\<And>j t. j < nat n \<Longrightarrow> I j t \<Longrightarrow> \<exists>t'. body (int j) t = Inr t' \<and> I (Suc j) t'"
  shows "\<exists>s'. for_loop body (py_range n) s = Inr s' \<and> I (nat n) s'"
  unfolding py_range_def
  by (rule for_loop_upt [where I = I, OF assms(1)]) (simp_all add: assms(2))

lemma py_setitem_nat:
  "k < length xs \<Longrightarrow> py_setitem xs (int k) v = Inr (xs[k := v])"
  by (simp add: py_setitem_def py_index_def)

lemma py_getitem_int:
  "0 \<le> i \<Longrightarrow> i < int (length xs) \<Longrightarrow> py_getitem xs i = Inr (xs ! nat i)"
  by (simp add: py_getitem_def py_index_def)

lemma glyph_length: "length (if b then BLOCK else SPACE) = 1"
  by (simp add: BLOCK_def SPACE_def)

lemma identicon_cell_step:
  assumes g: "grid_ok N grid" and r: "r < N" and c: "c < N"
    and k: "0 \<le> k" "k \<le> int (length bits)" and bits: "0 < length bits"
  shows "\<exists>v k'. identicon_cell bits (int N) (int r) (int c) (grid, k) =
           Inr (grid[r := (grid ! r)[c := v, N - 1 - c := v]], k') \<and>
         length v = 1 \<and> 0 \<le> k' \<and> k' \<le> int (length bits)"
proof -
  define kb where "kb = (if k \<ge> int (length bits) then 0 else k)"
  have kb: "0 \<le> kb" "kb < int (length bits)" using k bits by (auto simp: kb_def)
  define v where "v = (if [bits ! nat kb] = ascii ''1'' then BLOCK else SPACE)"
  have lv: "length v = 1" unfolding v_def by (rule glyph_length)
  from g r have lr: "length (grid ! r) = N" and lg: "r < length grid"
    by (auto simp: grid_ok_def)
  have 1: "py_getitem bits kb = Inr (bits ! nat kb)" using kb by (rule py_getitem_int)
  have 2: "py_getitem grid (int r) = Inr (grid ! r)" using lg by (rule py_getitem_nat)
  have 3: "py_setitem (grid ! r) (int c) v = Inr ((grid ! r)[c := v])"
    using c lr by (simp add: py_setitem_nat)
  have 4: "py_getitem ((grid ! r)[c := v]) (int c) = Inr v"
    using c lr by (simp add: py_getitem_nat)
  have m: "int N - 1 - int c = int (N - 1 - c)" using c by simp
  have "py_setitem ((grid ! r)[c := v]) (int (N - 1 - c)) v = Inr ((grid ! r)[c := v, N - 1 - c := v])"
    using c lr by (intro py_setitem_nat) simp
  then have 5: "py_setitem ((grid ! r)[c := v]) (int N - 1 - int c) v = Inr ((grid ! r)[c := v, N - 1 - c := v])"
    by (simp only: m)
  have "identicon_cell bits (int N) (int r) (int c) (grid, k) =
          Inr (grid[r := (grid ! r)[c := v, N - 1 - c := v]], kb + 1)"
    unfolding identicon_cell_def prod.case Let_def kb_def [symmetric] 1 bindE_simps
      v_def [symmetric] 2 3 4 5
    by simp
  with lv kb show ?thesis by auto
qed

lemma mirror_update_sym:
  assumes "length row = N" "2 * c < N" "c < N" "\<forall>j < c. row ! j = row ! (N - 1 - j)"
  shows "\<forall>j < Suc c. row[c := v, N - 1 - c := v] ! j = row[c := v, N - 1 - c := v] ! (N - 1 - j)"
proof (intro allI impI)
  fix j assume j: "j < Suc c"
  show "row[c := v, N - 1 - c := v] ! j = row[c := v, N - 1 - c := v] ! (N - 1 - j)"
  proof (cases "j = c")
    case True
    then show ?thesis using assms(1,3) by (simp add: nth_list_update)
  next
    case False
    with j have jc: "j < c" by simp
    with assms(2,3) have "j \<noteq> N - 1 - c" "N - 1 - j \<noteq> c" "N - 1 - j \<noteq> N - 1 - c" by auto
    with jc assms(1,3,4) False show ?thesis by (simp add: nth_list_update)
  qed
qed

lemma half_sym_imp_row_sym:
  assumes "\<forall>j < (N + 1) div 2. row ! j = row ! (N - 1 - j)"
  shows "row_sym N row"
  unfolding row_sym_def
proof (intro allI impI)
  fix j assume j: "j < N"
  show "row ! j = row ! (N - 1 - j)"
  proof (cases "j < (N + 1) div 2")
    case True
    with assms show ?thesis by simp
  next
    case False
    with j have "N - 1 - j < (N + 1) div 2" "N - 1 - (N - 1 - j) = j" by arith+
    with assms [rule_format, of "N - 1 - j"] show ?thesis by simp
  qed
qed

lemma grid_ok_update:
  assumes "grid_ok N grid" "r < N" "length v = 1"
  shows "grid_ok N (grid[r := (grid ! r)[c := v, d := v]])"
proof -
  from assms(1,2) have row: "length (grid ! r) = N" "\<forall>cell \<in> set (grid ! r). length cell = 1"
    by (auto simp: grid_ok_def)
  have "\<forall>cell \<in> set ((grid ! r)[c := v, d := v]). length cell = 1"
  proof
    fix cell assume "cell \<in> set ((grid ! r)[c := v, d := v])"
    then have "cell \<in> insert v (set ((grid ! r)[c := v]))" using set_update_subset_insert by fast
    then have "cell \<in> insert v (insert v (set (grid ! r)))" using set_update_subset_insert by fast
    with row(2) assms(3) show "length cell = 1" by auto
  qed
  with row(1) assms(1) show ?thesis
    unfolding grid_ok_def
    by (auto dest!: set_update_subset_insert [THEN subsetD])
qed

lemma identicon_row_ok:
  assumes g0: "grid_ok N g0" and r: "r < N"
    and k: "0 \<le> k" "k \<le> int (length bits)" and bits: "0 < length bits"
  shows "\<exists>g k'. identicon_row bits (int N) ((int N + 1) div 2) (int r) (g0, k) = Inr (g, k') \<and>
           grid_ok N g \<and> 0 \<le> k' \<and> k' \<le> int (length bits) \<and>
           (\<forall>r' < N. r' \<noteq> r \<longrightarrow> g ! r' = g0 ! r') \<and> row_sym N (g ! r)"
proof -
  define I where "I = (\<lambda>c (st :: str list list \<times> int).
      grid_ok N (fst st) \<and> 0 \<le> snd st \<and> snd st \<le> int (length bits) \<and>
      (\<forall>r' < N. r' \<noteq> r \<longrightarrow> fst st ! r' = g0 ! r') \<and>
      (\<forall>j < c. (fst st ! r) ! j = (fst st ! r) ! (N - 1 - j)))"
  have h: "nat ((int N + 1) div 2) = (N + 1) div 2" by (simp add: nat_div_distrib nat_add_distrib)
  have init: "I 0 (g0, k)" using g0 k by (simp add: I_def)
  have step: "\<exists>t'. identicon_cell bits (int N) (int r) (int c) t = Inr t' \<and> I (Suc c) t'"
    if c: "c < nat ((int N + 1) div 2)" and inv: "I c t" for c t
  proof -
    obtain grid kk where t: "t = (grid, kk)" by (cases t)
    from c h have c2: "2 * c < N" and cN: "c < N" by auto
    from inv t have gi: "grid_ok N grid" "0 \<le> kk" "kk \<le> int (length bits)"
      and oth: "\<forall>r' < N. r' \<noteq> r \<longrightarrow> grid ! r' = g0 ! r'"
      and sym: "\<forall>j < c. (grid ! r) ! j = (grid ! r) ! (N - 1 - j)"
      by (simp_all add: I_def)
    from identicon_cell_step [OF gi(1) r cN gi(2,3) bits] obtain v k'
      where e: "identicon_cell bits (int N) (int r) (int c) (grid, kk) =
                  Inr (grid[r := (grid ! r)[c := v, N - 1 - c := v]], k')"
        and v: "length v = 1" and k': "0 \<le> k'" "k' \<le> int (length bits)" by blast
    let ?g = "grid[r := (grid ! r)[c := v, N - 1 - c := v]]"
    from gi(1) r have lg: "r < length grid" and lr: "length (grid ! r) = N"
      by (auto simp: grid_ok_def)
    have a: "grid_ok N ?g" by (rule grid_ok_update [OF gi(1) r v])
    have b: "\<forall>r' < N. r' \<noteq> r \<longrightarrow> ?g ! r' = g0 ! r'" using oth by simp
    have row: "?g ! r = (grid ! r)[c := v, N - 1 - c := v]" using lg by simp
    have d: "\<forall>j < Suc c. (?g ! r) ! j = (?g ! r) ! (N - 1 - j)"
      unfolding row by (rule mirror_update_sym [OF lr c2 cN sym])
    from a b d k' have "I (Suc c) (?g, k')" by (simp add: I_def)
    with e t show ?thesis by blast
  qed
  from for_range_rule [of I "(g0, k)" "(int N + 1) div 2" "identicon_cell bits (int N) (int r)",
      OF init step]
  obtain s' where s': "identicon_row bits (int N) ((int N + 1) div 2) (int r) (g0, k) = Inr s'"
    and fin: "I ((N + 1) div 2) s'"
    unfolding identicon_row_def h by blast
  obtain g k' where p: "s' = (g, k')" by (cases s')
  from fin p have "grid_ok N g" "0 \<le> k'" "k' \<le> int (length bits)"
    "\<forall>r' < N. r' \<noteq> r \<longrightarrow> g ! r' = g0 ! r'"
    "\<forall>j < (N + 1) div 2. (g ! r) ! j = (g ! r) ! (N - 1 - j)"
    by (simp_all add: I_def)
  with s' p half_sym_imp_row_sym [of N "g ! r"] show ?thesis by blast
qed

lemma identicon_grid_ok:
  assumes g0: "grid_ok N g0" and bits: "0 < length bits"
  shows "\<exists>g k'. for_loop (identicon_row bits (int N) ((int N + 1) div 2)) (py_range (int N)) (g0, 0)
            = Inr (g, k') \<and> grid_ok N g \<and> (\<forall>r < N. row_sym N (g ! r))"
proof -
  define I where "I = (\<lambda>r (st :: str list list \<times> int).
      grid_ok N (fst st) \<and> 0 \<le> snd st \<and> snd st \<le> int (length bits) \<and>
      (\<forall>r' < r. row_sym N (fst st ! r')))"
  have init: "I 0 (g0, 0)" using g0 by (simp add: I_def)
  have step: "\<exists>t'. identicon_row bits (int N) ((int N + 1) div 2) (int r) t = Inr t' \<and> I (Suc r) t'"
    if r: "r < nat (int N)" and inv: "I r t" for r t
  proof -
    obtain grid kk where t: "t = (grid, kk)" by (cases t)
    from r have rN: "r < N" by simp
    from inv t have gi: "grid_ok N grid" "0 \<le> kk" "kk \<le> int (length bits)"
      and prev: "\<forall>r' < r. row_sym N (grid ! r')"
      by (simp_all add: I_def)
    from identicon_row_ok [OF gi(1) rN gi(2,3) bits] obtain g k'
      where e: "identicon_row bits (int N) ((int N + 1) div 2) (int r) (grid, kk) = Inr (g, k')"
        and a: "grid_ok N g" "0 \<le> k'" "k' \<le> int (length bits)"
        and oth: "\<forall>r' < N. r' \<noteq> r \<longrightarrow> g ! r' = grid ! r'" and sym: "row_sym N (g ! r)"
      by blast
    have "\<forall>r' < Suc r. row_sym N (g ! r')"
    proof (intro allI impI)
      fix r' assume "r' < Suc r"
      then consider "r' = r" | "r' < r" by arith
      then show "row_sym N (g ! r')"
      proof cases
        case 1
        with sym show ?thesis by simp
      next
        case 2
        with rN oth have "g ! r' = grid ! r'" by simp
        with prev 2 show ?thesis by simp
      qed
    qed
    with a have "I (Suc r) (g, k')" by (simp add: I_def)
    with e t show ?thesis by blast
  qed
  from for_range_rule [of I "(g0, 0)" "int N" "identicon_row bits (int N) ((int N + 1) div 2)",
      OF init step]
  obtain s' where s': "for_loop (identicon_row bits (int N) ((int N + 1) div 2)) (py_range (int N)) (g0, 0) = Inr s'"
    and fin: "I N s'" by auto
  obtain g k' where p: "s' = (g, k')" by (cases s')
  from fin p have "grid_ok N g" "\<forall>r < N. row_sym N (g ! r)" by (simp_all add: I_def)
  with s' p show ?thesis by blast
qed

lemma int16_from_ok:
  "set s \<subseteq> set hexdigits \<Longrightarrow> \<exists>n. int16_from acc s = Inr n"
proof (induction s arbitrary: acc)
  case Nil
  then show ?case by simp
next
  case (Cons c cs)
  then have "c \<in> set hexdigits" "set cs \<subseteq> set hexdigits" by simp_all
  with hex_value_hexdigits [of c] Cons.IH show ?case by simp
qed

lemma py_int16_ok:
  "s \<noteq> [] \<Longrightarrow> set s \<subseteq> set hexdigits \<Longrightarrow> \<exists>n. py_int16 s = Inr n"
  using int16_from_ok [of s 0] by (simp add: py_int16_def)

lemma zfill_length: "width \<le> length (zfill s width)"
  by (cases s) (auto simp: zfill_def)

lemma concat_cells:
  "\<forall>cell \<in> set row. length cell = 1 \<Longrightarrow>
   length (concat row) = length row \<and> (\<forall>j < length row. concat row ! j = hd (row ! j))"
proof (induction row)
  case Nil
  then show ?case by simp
next
  case (Cons cell row)
  then obtain x where x: "cell = [x]" by (cases cell) auto
  from Cons have ih: "length (concat row) = length row"
    "\<forall>j < length row. concat row ! j = hd (row ! j)" by simp_all
  show ?case
  proof (intro conjI allI impI)
    show "length (concat (cell # row)) = length (cell # row)" using x ih(1) by simp
    fix j assume "j < length (cell # row)"
    then show "concat (cell # row) ! j = hd ((cell # row) ! j)"
      using x ih(2) by (cases j) simp_all
  qed
qed

lemma ascii_identicon_ok:
  assumes "sha256_hex hexstr = Inr h"
  shows "\<exists>rows. ascii_identicon hexstr n = Inr rows \<and> length rows = nat n \<and>
           (\<forall>row \<in> set rows. length row = nat n \<and> row_sym (nat n) row)"
proof -
  from sha256_hex_shape [OF assms] have "h \<noteq> []" "set h \<subseteq> set hexdigits" by auto
  from py_int16_ok [OF this] obtain m where m: "py_int16 h = Inr m" by blast
  define bits where "bits = zfill (drop 2 (py_bin m)) 256"
  define N where "N = nat n"
  define g0 where "g0 = replicate N (replicate N SPACE)"
  have bits: "0 < length bits"
    using zfill_length [of 256 "drop 2 (py_bin m)"] unfolding bits_def by linarith
  have g0: "grid_ok N g0" by (simp add: grid_ok_def g0_def SPACE_def)
  have unf: "ascii_identicon hexstr n =
      bindE (for_loop (identicon_row bits n ((n + 1) div 2)) (py_range n) (g0, 0))
        (\<lambda>st. Inr (map concat (fst st)))"
    by (simp add: ascii_identicon_def assms m Let_def bits_def g0_def N_def)
  show ?thesis
  proof (cases "0 < n")
    case False
    then have "py_range n = []" "N = 0" by (simp_all add: py_range_def N_def)
    then show ?thesis unfolding unf by (simp add: g0_def N_def)
  next
    case True
    then have n: "int N = n" by (simp add: N_def)
    from identicon_grid_ok [OF g0 bits] obtain g k'
      where e: "for_loop (identicon_row bits n ((n + 1) div 2)) (py_range n) (g0, 0) = Inr (g, k')"
        and g: "grid_ok N g" and sym: "\<forall>r < N. row_sym N (g ! r)"
      unfolding n by blast
    have r: "ascii_identicon hexstr n = Inr (map concat g)" unfolding unf e by simp
    have "length row = N \<and> row_sym N row" if "row \<in> set (map concat g)" for row
    proof -
      from that obtain cells where c: "cells \<in> set g" "row = concat cells" by auto
      then obtain i where i: "i < length g" "cells = g ! i" by (auto simp: in_set_conv_nth)
      with g sym have s: "row_sym N cells" by (simp add: grid_ok_def)
      from g c(1) have l: "length cells = N" "\<forall>cell \<in> set cells. length cell = 1"
        by (auto simp: grid_ok_def)
      from concat_cells [OF l(2)] l(1) have cc: "length (concat cells) = N"
        "\<forall>j < N. concat cells ! j = hd (cells ! j)" by simp_all
      have "row_sym N (concat cells)"
        unfolding row_sym_def
      proof (intro allI impI)
        fix j assume j: "j < N"
        then have j': "N - 1 - j < N" by simp
        from s j have "cells ! j = cells ! (N - 1 - j)" unfolding row_sym_def by blast
        then have "hd (cells ! j) = hd (cells ! (N - 1 - j))" by (rule arg_cong)
        moreover from cc(2) j have "concat cells ! j = hd (cells ! j)" by blast
        moreover from cc(2) j' have "concat cells ! (N - 1 - j) = hd (cells ! (N - 1 - j))" by blast
        ultimately show "concat cells ! j = concat cells ! (N - 1 - j)" by (simp only:)
      qed
      with cc(1) c(2) show ?thesis by simp
    qed
    moreover have "length (map concat g) = N" using g by (simp add: grid_ok_def)
    ultimately show ?thesis unfolding r N_def [symmetric] by blast
  qed
qed

section \<open>Normalization\<close>




section \<open>Entropy score\<close>


section \<open>The alias\<close>

text \<open>
  C10: \<open>make_pronounceable_alias\<close> depends on its two arguments only through
  the string \<open>hexstr + "|" + seed\<close>: two pairs with the same concatenation have
  the same alias.
\<close>

theorem alias_delimiter_collision:
  "h1 @ ascii ''|'' @ s1 = h2 @ ascii ''|'' @ s2 \<Longrightarrow>
   make_pronounceable_alias h1 s1 = make_pronounceable_alias h2 s2"
  by (simp add: make_pronounceable_alias_def)

theorem alias_delimiter_collision_witness:
  "(ascii ''a|'', ascii ''b'') \<noteq> (ascii ''a'', ascii ''|b'') \<and>
   ascii ''a|'' @ ascii ''|'' @ ascii ''b'' = ascii ''a'' @ ascii ''|'' @ ascii ''|b'' \<and>
   make_pronounceable_alias (ascii ''a|'') (ascii ''b'') =
   make_pronounceable_alias (ascii ''a'') (ascii ''|b'')"
proof -
  have e: "ascii ''a|'' @ ascii ''|'' @ ascii ''b'' = ascii ''a'' @ ascii ''|'' @ ascii ''|b''"
    by simp
  have "(ascii ''a|'', ascii ''b'') \<noteq> (ascii ''a'', ascii ''|b'')" by simp
  with e alias_delimiter_collision [OF e] show ?thesis by blast
qed

subsection \<open>Evaluated digests\<close>

text \<open>The test vector of FIPS 180-4 for the message \<open>abc\<close>.\<close>

lemma sha256_hex_abc:
  "sha256_hex (ascii ''abc'') =
   Inr (ascii ''ba7816bf8f01cfea414140de5dae2223b00361a396177a9cb410ff61f20015ad'')"
  by code_simp

lemma sha256_hex_seeded:
  "sha256_hex (ascii ''deadbeef|'') =
   Inr (ascii ''999c9f1f74937770fd27c780c6b86c82451278697b0d2f6b8048008b9c751091'')"
  by code_simp

lemma ref_alias_seeded:
  "ref_alias_of_digest
     (ascii ''999c9f1f74937770fd27c780c6b86c82451278697b0d2f6b8048008b9c751091'') =
   ascii ''Jugmugqugnob''"
  by code_simp

lemma alias_deadbeef:
  "make_pronounceable_alias (ascii ''deadbeef'') [] = Inr (ascii ''Jugmugqugnob'')"
proof -
  have "ascii ''deadbeef'' @ ascii ''|'' @ [] = ascii ''deadbeef|''" by simp
  then show ?thesis
    unfolding alias_refines alias_reference_def
    by (simp only: sha256_hex_seeded sum.case ref_alias_seeded)
qed

text \<open>
  C3: for every address and seed, \<open>make_pronounceable_alias\<close> equals the
  reference definition \<open>alias_reference\<close>; both raise on the same inputs, those
  whose digest cannot be computed.
\<close>

theorem alias_matches_reference:
  "make_pronounceable_alias hexstr seed_arg = alias_reference hexstr seed_arg"
  by (rule alias_refines)

text \<open>
  C7: an alias returned by \<open>make_pronounceable_alias\<close> has at most 12
  characters, its first character is an uppercase letter, and every other
  character is a lowercase letter of the consonant or the vowel alphabet.
\<close>

theorem alias_shape:
  assumes "make_pronounceable_alias hexstr seed_arg = Inr a"
  shows "length a \<le> 12 \<and>
         (\<exists>c cs. a = c # cs \<and> 0x41 \<le> c \<and> c \<le> 0x5A \<and>
            (\<forall>x \<in> set cs. x \<in> set CONSONANTS \<union> set VOWELS \<and> 0x61 \<le> x \<and> x \<le> 0x7A))"
proof -
  from assms obtain d where "a = ref_alias_of_digest d"
    by (auto simp: alias_refines alias_reference_def split: sum.splits)
  with ref_alias_shape [of d] show ?thesis by simp
qed

theorem alias_shape_witness:
  "make_pronounceable_alias (ascii ''deadbeef'') [] = Inr (ascii ''Jugmugqugnob'') \<and>
   length (ascii ''Jugmugqugnob'') \<le> 12 \<and>
   (\<exists>c cs. ascii ''Jugmugqugnob'' = c # cs \<and> 0x41 \<le> c \<and> c \<le> 0x5A \<and>
      (\<forall>x \<in> set cs. x \<in> set CONSONANTS \<union> set VOWELS \<and> 0x61 \<le> x \<and> x \<le> 0x7A))"
  using alias_shape [OF alias_deadbeef] alias_deadbeef by blast



section \<open>The identicon\<close>

text \<open>The identicon of size 3 of the address \<open>deadbeef\<close>, evaluated step by step.\<close>

lemma sha256_hex_deadbeef:
  "sha256_hex (ascii ''deadbeef'') =
   Inr (ascii ''2baf1f40105d9501fe319a8ec463fdf4325a2a5df445adf3f572f626253678c9'')"
  by code_simp







section \<open>Totality\<close>

lemma encodable_append [simp]: "encodable (xs @ ys) \<longleftrightarrow> encodable xs \<and> encodable ys"
  by (simp add: encodable_def)

lemma alias_cases:
  "(if encodable hexstr \<and> encodable sd
    then \<exists>a. make_pronounceable_alias hexstr sd = Inr a
    else make_pronounceable_alias hexstr sd = Inl UnicodeEncodeError)"
proof -
  let ?m = "hexstr @ ascii ''|'' @ sd"
  have e: "encodable ?m \<longleftrightarrow> encodable hexstr \<and> encodable sd"
    by (simp add: encodable_def is_surrogate_def)
  from sha256_hex_cases [of ?m] show ?thesis
    unfolding e by (auto simp: alias_refines alias_reference_def)
qed

lemma identicon_cases:
  "(if encodable hexstr
    then \<exists>rows. ascii_identicon hexstr n = Inr rows
    else ascii_identicon hexstr n = Inl UnicodeEncodeError)"
proof (cases "encodable hexstr")
  case True
  with sha256_hex_cases [of hexstr] obtain h where "sha256_hex hexstr = Inr h" by blast
  from ascii_identicon_ok [OF this, of n] True show ?thesis by auto
next
  case False
  with sha256_hex_cases [of hexstr] have "sha256_hex hexstr = Inl UnicodeEncodeError" by blast
  with False show ?thesis by (simp add: ascii_identicon_def)
qed

lemma sha_cases_if:
  "(if encodable s then \<exists>d. sha256_hex s = Inr d else sha256_hex s = Inl UnicodeEncodeError)"
  using sha256_hex_cases [of s] by auto

text \<open>
  C8 as stated fails: a Python string may hold a lone surrogate (the command
  line gives one for every byte that is not UTF-8), and \<open>encode("utf-8")\<close>
  raises \<open>UnicodeEncodeError\<close> on it, so \<open>sha256_hex\<close>,
  \<open>make_pronounceable_alias\<close> and \<open>ascii_identicon\<close> raise on such a string.
\<close>

theorem core_not_total:
  "sha256_hex [0xDCFF] = Inl UnicodeEncodeError \<and>
   make_pronounceable_alias [0xDCFF] [] = Inl UnicodeEncodeError \<and>
   ascii_identicon [0xDCFF] 7 = Inl UnicodeEncodeError"
  by (simp add: sha256_hex_def utf8_encode_cp_def make_pronounceable_alias_def ascii_identicon_def)

text \<open>
  C8, amended: \<open>hex_normalize\<close> and \<open>entropy_score_from_hex\<close> return for every
  string; \<open>sha256_hex\<close>, \<open>make_pronounceable_alias\<close> and \<open>ascii_identicon\<close> (for
  every size) return exactly when their string arguments hold no surrogate
  code point, and raise \<open>UnicodeEncodeError\<close> otherwise. No \<open>IndexError\<close>,
  \<open>ValueError\<close> or \<open>ZeroDivisionError\<close> is reachable: every index into the
  digest, the alphabets, the bit string and the grid is within bounds, and the
  character total is never zero. (\<open>hex_normalize\<close> has no failing operation:
  its model is a total function to strings.)
\<close>

theorem core_total_on_encodable:
  "(if encodable s then \<exists>d. sha256_hex s = Inr d else sha256_hex s = Inl UnicodeEncodeError) \<and>
   (if encodable hexstr \<and> encodable seed_arg
    then \<exists>a. make_pronounceable_alias hexstr seed_arg = Inr a
    else make_pronounceable_alias hexstr seed_arg = Inl UnicodeEncodeError) \<and>
   (if encodable hexstr
    then \<exists>rows. ascii_identicon hexstr n = Inr rows
    else ascii_identicon hexstr n = Inl UnicodeEncodeError) \<and>
   (\<exists>x. entropy_score_from_hex s = Inr x)"
  using sha_cases_if [of s] alias_cases [of hexstr seed_arg] identicon_cases [of hexstr n]
    entropy_total [of s]
  by blast

theorem core_total_on_encodable_witness:
  "encodable (ascii ''deadbeef'') \<and> encodable (ascii ''x'') \<and> \<not> encodable [0xDCFF] \<and>
   (\<exists>d. sha256_hex (ascii ''deadbeef'') = Inr d) \<and>
   (\<exists>a. make_pronounceable_alias (ascii ''deadbeef'') (ascii ''x'') = Inr a) \<and>
   (\<exists>rows. ascii_identicon (ascii ''deadbeef'') 7 = Inr rows) \<and>
   (\<exists>x. entropy_score_from_hex (ascii ''deadbeef'') = Inr x) \<and>
   sha256_hex [0xDCFF] = Inl UnicodeEncodeError \<and>
   make_pronounceable_alias (ascii ''deadbeef'') [0xDCFF] = Inl UnicodeEncodeError \<and>
   ascii_identicon [0xDCFF] 7 = Inl UnicodeEncodeError"
proof -
  have a: "encodable (ascii ''deadbeef'')" "encodable (ascii ''x'')" "\<not> encodable [0xDCFF]"
    by (simp_all add: encodable_def is_surrogate_def)
  from a core_total_on_encodable [of "ascii ''deadbeef''" "ascii ''deadbeef''" "ascii ''x''" 7]
    core_total_on_encodable [of "[0xDCFF]" "ascii ''deadbeef''" "[0xDCFF]" 7]
    core_total_on_encodable [of "[0xDCFF]" "[0xDCFF]" "[]" 7]
  show ?thesis by (simp only: if_True if_False simp_thms)
qed

section \<open>The report\<close>

lemma alias_deadbeef_x:
  "make_pronounceable_alias (ascii ''deadbeef'') (ascii ''x'') = Inr (ascii ''Zogxohfogrec'')"
  by code_simp

lemma build_report_deadbeef:
  assumes "make_pronounceable_alias (ascii ''deadbeef'') S = Inr al"
  shows "\<exists>e rows. build_report (ascii ''deadbeef'') S =
           Inr \<lparr>input = ascii ''deadbeef'', normalized = ascii ''deadbeef'',
                fingerprint = ascii ''2baf1f40105d9501fe319a8ec463fdf4325a2a5df445adf3f572f626253678c9'',
                short_id = ascii ''2baf1f40'', alias_name = al,
                entropy_score = e, identicon_lines = rows\<rparr> \<and>
           0 \<le> e \<and> e \<le> 100 \<and> length rows = 7"
proof -
  have n: "hex_normalize (ascii ''deadbeef'') = ascii ''deadbeef''"
    by (rule hexdigits_fixed) (simp add: hexdigits_def)
  from ascii_identicon_ok [OF sha256_hex_deadbeef, of 7] obtain rows
    where rows: "ascii_identicon (ascii ''deadbeef'') 7 = Inr rows" "length rows = 7" by auto
  from entropy_total [of "ascii ''deadbeef''"] obtain e
    where e: "entropy_score_from_hex (ascii ''deadbeef'') = Inr e" "0 \<le> e" "e \<le> 100" by blast
  have t: "take 8 (ascii ''2baf1f40105d9501fe319a8ec463fdf4325a2a5df445adf3f572f626253678c9'') =
           ascii ''2baf1f40''" by simp
  have "build_report (ascii ''deadbeef'') S =
           Inr \<lparr>input = ascii ''deadbeef'', normalized = ascii ''deadbeef'',
                fingerprint = ascii ''2baf1f40105d9501fe319a8ec463fdf4325a2a5df445adf3f572f626253678c9'',
                short_id = ascii ''2baf1f40'', alias_name = al,
                entropy_score = e, identicon_lines = rows\<rparr>"
    unfolding build_report_def Let_def n sha256_hex_deadbeef assms rows(1) e(1) bindE_simps t ..
  with e(2,3) rows(2) show ?thesis by blast
qed

text \<open>
  C4: for every address and every two seeds, the reports built for the two
  seeds agree on \<open>input\<close>, \<open>normalized\<close>, \<open>fingerprint\<close>, \<open>short_id\<close>,
  \<open>entropy_score\<close> and \<open>identicon_lines\<close>; only the alias may depend on the
  seed.
\<close>

theorem seed_frame:
  assumes "build_report A S1 = Inr r1" and "build_report A S2 = Inr r2"
  shows "input r1 = input r2 \<and> normalized r1 = normalized r2 \<and> fingerprint r1 = fingerprint r2 \<and>
         short_id r1 = short_id r2 \<and> entropy_score r1 = entropy_score r2 \<and>
         identicon_lines r1 = identicon_lines r2"
  using assms
  by (auto simp: build_report_def Let_def bindE_def split: sum.splits)

theorem seed_frame_witness:
  "\<exists>r1 r2. build_report (ascii ''deadbeef'') [] = Inr r1 \<and>
     build_report (ascii ''deadbeef'') (ascii ''x'') = Inr r2 \<and>
     alias_name r1 = ascii ''Jugmugqugnob'' \<and> alias_name r2 = ascii ''Zogxohfogrec'' \<and>
     alias_name r1 \<noteq> alias_name r2 \<and>
     input r1 = input r2 \<and> normalized r1 = normalized r2 \<and> fingerprint r1 = fingerprint r2 \<and>
     short_id r1 = short_id r2 \<and> entropy_score r1 = entropy_score r2 \<and>
     identicon_lines r1 = identicon_lines r2"
proof -
  from build_report_deadbeef [OF alias_deadbeef] obtain r1
    where r1: "build_report (ascii ''deadbeef'') [] = Inr r1" "alias_name r1 = ascii ''Jugmugqugnob''"
    by force
  from build_report_deadbeef [OF alias_deadbeef_x] obtain r2
    where r2: "build_report (ascii ''deadbeef'') (ascii ''x'') = Inr r2"
      "alias_name r2 = ascii ''Zogxohfogrec''"
    by force
  have "ascii ''Jugmugqugnob'' \<noteq> ascii ''Zogxohfogrec''" by simp
  with r1 r2 seed_frame [OF r1(1) r2(1)] show ?thesis by (intro exI [of _ r1] exI [of _ r2]) simp
qed



end
